theory Spec2Isabelle
  imports Complex_Main
begin

section \<open>Reviewer lottery: a shallow embedding of \<^verbatim>\<open>src/lottery.ts\<close>\<close>

text \<open>
  The class \<^verbatim>\<open>Lottery\<close> is modelled by a record of its fields together with the
  state of its collaborators that the methods touch: the answers of the source-control
  host, the calls made on the collaborators (a trace of events) and the number of
  \<^verbatim>\<open>Math.random()\<close> calls made so far. Every method takes the record and returns the
  updated one. A JavaScript value of type \<^verbatim>\<open>string | undefined\<close> is a \<open>string option\<close>,
  \<open>None\<close> being \<^verbatim>\<open>undefined\<close>. A method whose loop may run forever returns an option,
  \<open>None\<close> meaning that the call does not return.
\<close>

subsection \<open>JavaScript primitives\<close>

type_synonym jsstring = "string option"

text \<open>
  \<^verbatim>\<open>s.split(sep)\<close> for a one-character separator. The result is never empty (lemma
  \<open>js_split_nonempty\<close>), so the second branch of the \<open>case\<close> is never taken.
\<close>

fun js_split :: "char \<Rightarrow> string \<Rightarrow> string list" where
  "js_split sep [] = [[]]"
| "js_split sep (c # cs) =
     (if c = sep then [] # js_split sep cs
      else (case js_split sep cs of
              p # ps \<Rightarrow> (c # p) # ps
            | [] \<Rightarrow> [[c]]))"

text \<open>\<^verbatim>\<open>xs[i]\<close>: \<^verbatim>\<open>undefined\<close> out of range.\<close>

definition js_nth :: "'a list \<Rightarrow> nat \<Rightarrow> 'a option" where
  "js_nth xs i = (if i < length xs then Some (xs ! i) else None)"

text \<open>
  \<^verbatim>\<open>xs.splice(start, 1)\<close> for \<open>0 \<le> start\<close>: the removed elements (at most one) and
  the array that is left. Out of range nothing is removed.
\<close>

definition splice1 :: "nat \<Rightarrow> 'a list \<Rightarrow> 'a list \<times> 'a list" where
  "splice1 start xs = (take 1 (drop start xs), take start xs @ drop (Suc start) xs)"

text \<open>\<^verbatim>\<open>xs.join(sep)\<close>.\<close>

fun js_join :: "string \<Rightarrow> string list \<Rightarrow> string" where
  "js_join sep [] = []"
| "js_join sep [x] = x"
| "js_join sep (x # y # ys) = x @ sep @ js_join sep (y # ys)"

text \<open>Truthiness of a \<^verbatim>\<open>number | undefined\<close> and of a \<^verbatim>\<open>string | undefined\<close>.\<close>

definition truthyNumber :: "nat option \<Rightarrow> bool" where
  "truthyNumber v = (case v of None \<Rightarrow> False | Some n \<Rightarrow> n \<noteq> 0)"

definition truthyString :: "jsstring \<Rightarrow> bool" where
  "truthyString v = (case v of None \<Rightarrow> False | Some s \<Rightarrow> s \<noteq> [])"

text \<open>
  The random source. \<open>rnd k\<close> is the value of the \<open>k\<close>-th call of \<^verbatim>\<open>Math.random()\<close>,
  which the language puts in the interval \<open>[0, 1)\<close>; the product and the floor are
  taken over the reals. The index drawn from a list that is not empty is then in the
  range of the list (lemma \<open>randomIndex_less\<close>), and it is 0 for the empty list.
  \<open>constRandom r\<close> is the source that gives \<open>r\<close> at every call.
\<close>

definition unitInterval :: "(nat \<Rightarrow> real) \<Rightarrow> bool" where
  "unitInterval rnd = (\<forall>k. 0 \<le> rnd k \<and> rnd k < 1)"

definition randomIndex :: "real \<Rightarrow> nat \<Rightarrow> nat" where
  "randomIndex r len = nat \<lfloor>r * real len\<rfloor>"

definition constRandom :: "real \<Rightarrow> nat \<Rightarrow> real" where
  "constRandom r k = r"

subsection \<open>The sampler \<^verbatim>\<open>pickRandom\<close>\<close>

text \<open>Line 152: \<^verbatim>\<open>items.filter(item => !ignore.includes(item))\<close>.\<close>

definition eligible :: "string list \<Rightarrow> jsstring list \<Rightarrow> string list" where
  "eligible items ignore = filter (\<lambda>item. Some item \<notin> set ignore) items"

text \<open>
  Lines 154 to 159, the \<^verbatim>\<open>while\<close> loop. \<open>k\<close> counts the calls of \<^verbatim>\<open>Math.random()\<close>.
  The loop has no exit but \<^verbatim>\<open>picks.length < n\<close> becoming false.
\<close>

partial_function (option) pickLoop ::
  "(nat \<Rightarrow> real) \<Rightarrow> nat \<Rightarrow> nat \<Rightarrow> string list \<Rightarrow> jsstring list
     \<Rightarrow> (jsstring list \<times> nat) option"
where
  "pickLoop rnd n k candidates picks =
     (if length picks < n then
        (let random = randomIndex (rnd k) (length candidates);
             spliced = splice1 random candidates;
             pick = js_nth (fst spliced) 0
         in pickLoop rnd n (Suc k) (snd spliced)
              (if pick \<in> set picks then picks else picks @ [pick]))
      else Some (picks, k))"

declare pickLoop.simps [code]

definition pickRandom ::
  "(nat \<Rightarrow> real) \<Rightarrow> nat \<Rightarrow> string list \<Rightarrow> nat \<Rightarrow> jsstring list
     \<Rightarrow> (jsstring list \<times> nat) option"
where
  "pickRandom rnd k items n ignore = pickLoop rnd n k (eligible items ignore) []"

subsection \<open>Data\<close>

text \<open>
  The interface \<^verbatim>\<open>Pull\<close> (lines 6 to 12): \<^verbatim>\<open>user\<close> is \<open>None\<close> for \<^verbatim>\<open>null\<close>, otherwise the
  login; \<^verbatim>\<open>draft\<close> is optional.
\<close>

record Pull =
  user :: "string option"
  number :: nat
  draft :: "bool option"
  title :: string
  url :: string

record Env =
  repository :: string
  ref :: string

text \<open>
  Modelled from the spec: the types \<^verbatim>\<open>Config\<close> and group of \<^verbatim>\<open>config.ts\<close>, which is not
  among the sources. A group has a count \<^verbatim>\<open>reviewers\<close>, an optional count
  \<^verbatim>\<open>internal_reviewers\<close> and the list \<^verbatim>\<open>usernames\<close> of entries \<^verbatim>\<open>username\<close> or
  \<^verbatim>\<open>username:contactHandle\<close>. The counts are non-negative integers, \<open>None\<close> when the
  key is absent. The declared types are gone at run time and \<^verbatim>\<open>lottery.ts\<close> checks
  nothing of the configuration it is given, so the model also has the group whose key
  \<^verbatim>\<open>usernames\<close> is absent (\<open>None\<close>): calling \<^verbatim>\<open>map\<close> on it, or iterating over it,
  throws a \<^verbatim>\<open>TypeError\<close>. It is the one way a step of the loops over the groups can
  throw.
\<close>

record Group =
  reviewers :: "nat option"
  internal_reviewers :: "nat option"
  usernames :: "string list option"

record Config =
  groups :: "Group list"

text \<open>Values that are thrown.\<close>

datatype error =
    NotFound string
  | TypeError
  | Failure string

text \<open>
  What the source-control host answers: to \<^verbatim>\<open>pulls.list\<close> an error or the open pull
  requests, each with its \<^verbatim>\<open>head.ref\<close>; to \<^verbatim>\<open>pulls.requestReviewers\<close> an error or
  nothing.
\<close>

record Octokit =
  pullsList :: "error + (string \<times> Pull) list"
  requestReviewers :: "error option"

text \<open>The calls made on the collaborators, in order.\<close>

datatype event =
    PullsList string jsstring
  | RequestReviewers string jsstring "nat option" "jsstring list"
  | Send string
  | SetFailed error

record Lottery =
  octokit :: Octokit
  config :: Config
  env :: Env
  pr :: "Pull option"
  trace :: "event list"
  draws :: nat

text \<open>The constructor (lines 25 to 44), at the start of a process.\<close>

definition newLottery :: "Octokit \<Rightarrow> Config \<Rightarrow> Env \<Rightarrow> Lottery" where
  "newLottery ok cfg e =
     \<lparr>octokit = ok, config = cfg, env = e, pr = None, trace = [], draws = 0\<rparr>"

text \<open>\<^verbatim>\<open>core.error(error); core.setFailed(error)\<close>, the body of every \<^verbatim>\<open>catch\<close>.\<close>

definition fail :: "error \<Rightarrow> Lottery \<Rightarrow> Lottery" where
  "fail e L = L\<lparr>trace := trace L @ [SetFailed e]\<rparr>"

definition requestCalls :: "Lottery \<Rightarrow> nat" where
  "requestCalls L =
     length (filter (\<lambda>ev. case ev of RequestReviewers a b c d \<Rightarrow> True | _ \<Rightarrow> False) (trace L))"

definition notifications :: "Lottery \<Rightarrow> nat" where
  "notifications L =
     length (filter (\<lambda>ev. case ev of Send t \<Rightarrow> True | _ \<Rightarrow> False) (trace L))"

definition fetches :: "Lottery \<Rightarrow> nat" where
  "fetches L =
     length (filter (\<lambda>ev. case ev of PullsList a b \<Rightarrow> True | _ \<Rightarrow> False) (trace L))"

subsection \<open>Fetching the pull request\<close>

text \<open>Lines 177 to 185.\<close>

definition getOwnerAndRepo :: "Lottery \<Rightarrow> string \<times> jsstring" where
  "getOwnerAndRepo L =
     (let parts = js_split CHR ''/'' (repository (env L))
      in (hd parts, js_nth parts 1))"

definition getPRNumber :: "Lottery \<Rightarrow> nat option" where
  "getPRNumber L = map_option number (pr L)"

text \<open>
  Lines 187 to 208. With a pull request in \<^verbatim>\<open>this.pr\<close> nothing is fetched. Otherwise
  the list is asked for; \<^verbatim>\<open>this.pr\<close> becomes the first entry whose \<^verbatim>\<open>head.ref\<close> is the
  ref of the environment; a failed call or no such entry is reported and the result is
  \<^verbatim>\<open>undefined\<close>.
\<close>

definition getPR :: "Lottery \<Rightarrow> Pull option \<times> Lottery" where
  "getPR L =
     (case pr L of
        Some p \<Rightarrow> (Some p, L)
      | None \<Rightarrow>
          (let (owner, repo) = getOwnerAndRepo L;
               L1 = L\<lparr>trace := trace L @ [PullsList owner repo]\<rparr>
           in case pullsList (octokit L) of
                Inl e \<Rightarrow> (None, fail e L1)
              | Inr data \<Rightarrow>
                  (case find (\<lambda>entry. fst entry = ref (env L)) data of
                     None \<Rightarrow> (None, fail (NotFound (ref (env L))) (L1\<lparr>pr := None\<rparr>))
                   | Some entry \<Rightarrow> (Some (snd entry), L1\<lparr>pr := Some (snd entry)\<rparr>))))"

text \<open>Lines 61 to 70: \<^verbatim>\<open>!!pr && !pr.draft\<close>; an absent \<^verbatim>\<open>draft\<close> is falsy.\<close>

definition isReadyToReview :: "Lottery \<Rightarrow> bool \<times> Lottery" where
  "isReadyToReview L =
     (let (p, L1) = getPR L
      in (case p of None \<Rightarrow> False | Some q \<Rightarrow> draft q \<noteq> Some True, L1))"

text \<open>Lines 164 to 175: the login of the author, the empty string when there is none.\<close>

definition getPRAuthor :: "Lottery \<Rightarrow> string \<times> Lottery" where
  "getPRAuthor L =
     (let (p, L1) = getPR L
      in (case p of
            None \<Rightarrow> []
          | Some q \<Rightarrow> (case user q of None \<Rightarrow> [] | Some login \<Rightarrow> login), L1))"

subsection \<open>Selecting the reviewers\<close>

text \<open>Lines 123 to 125: each entry without what follows its first colon.\<close>

definition stripHandles :: "string list \<Rightarrow> string list" where
  "stripHandles names = map (\<lambda>name. hd (js_split CHR '':'' name)) names"

text \<open>
  Lines 126 to 129:
  \<^verbatim>\<open>usernames.includes(author) && internalReviewers ? internalReviewers : reviewers\<close>.
\<close>

definition reviewersToRequest :: "string \<Rightarrow> Group \<Rightarrow> string list \<Rightarrow> nat option" where
  "reviewersToRequest author g pool =
     (if author \<in> set pool \<and> truthyNumber (internal_reviewers g)
      then internal_reviewers g
      else reviewers g)"

text \<open>
  Lines 118 to 140, the loop over the groups inside the \<^verbatim>\<open>try\<close>. The result is the list
  \<^verbatim>\<open>selected\<close> when the loop was left, with the error that left it if one was thrown,
  and the count of random draws. \<open>None\<close>: a call of \<^verbatim>\<open>pickRandom\<close> does not return.
\<close>

fun selectLoop ::
  "(nat \<Rightarrow> real) \<Rightarrow> string \<Rightarrow> Group list \<Rightarrow> nat \<Rightarrow> jsstring list
     \<Rightarrow> ((jsstring list \<times> error option) \<times> nat) option"
where
  "selectLoop rnd author [] k selected = Some ((selected, None), k)"
| "selectLoop rnd author (g # gs) k selected =
     (case usernames g of
        None \<Rightarrow> Some ((selected, Some TypeError), k)
      | Some names \<Rightarrow>
          (let pool = stripHandles names;
               count = reviewersToRequest author g pool
           in if truthyNumber count then
                (case pickRandom rnd k pool (case count of Some n \<Rightarrow> n | None \<Rightarrow> 0)
                        (selected @ [Some author]) of
                   None \<Rightarrow> None
                 | Some (picks, k') \<Rightarrow> selectLoop rnd author gs k' (selected @ picks))
              else selectLoop rnd author gs k selected))"

text \<open>Lines 113 to 147: the \<^verbatim>\<open>catch\<close> reports the error and \<^verbatim>\<open>selected\<close> is returned.\<close>

definition selectReviewers :: "(nat \<Rightarrow> real) \<Rightarrow> Lottery \<Rightarrow> (jsstring list \<times> Lottery) option" where
  "selectReviewers rnd L =
     (let (author, L1) = getPRAuthor L
      in case selectLoop rnd author (groups (config L1)) (draws L1) [] of
           None \<Rightarrow> None
         | Some ((selected, err), k) \<Rightarrow>
             Some (selected,
                   (case err of None \<Rightarrow> L1 | Some e \<Rightarrow> fail e L1)\<lparr>draws := k\<rparr>))"

subsection \<open>Requesting the reviewers and notifying\<close>

text \<open>
  Lines 72 to 81. The request carries the truthy reviewers only. The result is the
  error the call threw, if any.
\<close>

definition setReviewers :: "jsstring list \<Rightarrow> Lottery \<Rightarrow> error option \<times> Lottery" where
  "setReviewers revs L =
     (let (owner, repo) = getOwnerAndRepo L;
          prn = getPRNumber L
      in (requestReviewers (octokit L),
          L\<lparr>trace := trace L @ [RequestReviewers owner repo prn (filter truthyString revs)]\<rparr>))"

text \<open>
  The object \<^verbatim>\<open>usernameToSlackMap\<close> (line 84) is the map of its own properties. An
  assignment to the key \<^verbatim>\<open>__proto__\<close> of a string or of \<^verbatim>\<open>undefined\<close> changes nothing,
  and reading that key gives the prototype, which a template prints as
  \<^verbatim>\<open>[object Object]\<close>. Another key that is not an own property reads as \<^verbatim>\<open>undefined\<close>;
  the names of the members of the prototype are not modelled (they are read only
  for a reviewer that no entry of the configuration names).
\<close>

type_synonym slackMap = "string \<rightharpoonup> jsstring"

definition mapSet :: "slackMap \<Rightarrow> string \<Rightarrow> jsstring \<Rightarrow> slackMap" where
  "mapSet m key v = (if key = ''__proto__'' then m else m(key \<mapsto> v))"

definition mapText :: "slackMap \<Rightarrow> string \<Rightarrow> string" where
  "mapText m key =
     (if key = ''__proto__'' then ''[object Object]''
      else (case m key of Some (Some handle) \<Rightarrow> handle | _ \<Rightarrow> ''undefined''))"

text \<open>Lines 88 to 91, the inner loop.\<close>

fun mapUsers :: "slackMap \<Rightarrow> string list \<Rightarrow> slackMap" where
  "mapUsers m [] = m"
| "mapUsers m (entry # entries) =
     (let parts = js_split CHR '':'' entry
      in mapUsers (mapSet m (hd parts) (js_nth parts 1)) entries)"

text \<open>Lines 86 to 92, the outer loop; iterating over an absent list throws.\<close>

fun mapGroups :: "slackMap \<Rightarrow> Group list \<Rightarrow> error + slackMap" where
  "mapGroups m [] = Inr m"
| "mapGroups m (g # gs) =
     (case usernames g of
        None \<Rightarrow> Inl TypeError
      | Some entries \<Rightarrow> mapGroups (mapUsers m entries) gs)"

definition usernameToSlackMap :: "Group list \<Rightarrow> error + slackMap" where
  "usernameToSlackMap gs = mapGroups Map.empty gs"

text \<open>Line 97: a reviewer that is \<^verbatim>\<open>undefined\<close> is looked up under the key \<^verbatim>\<open>undefined\<close>.\<close>

definition mention :: "slackMap \<Rightarrow> jsstring \<Rightarrow> string" where
  "mention m username =
     ''@'' @ mapText m (case username of None \<Rightarrow> ''undefined'' | Some u \<Rightarrow> u)"

definition slackUsernames :: "slackMap \<Rightarrow> jsstring list \<Rightarrow> string" where
  "slackUsernames m revs = js_join '', '' (map (mention m) revs)"

text \<open>Line 106, the text of the message.\<close>

definition messageText :: "string \<Rightarrow> Pull option \<Rightarrow> string" where
  "messageText names p =
     ''<'' @ names @ ''> Has been assigned to _''
       @ (case p of None \<Rightarrow> ''undefined'' | Some q \<Rightarrow> title q)
       @ ''_. '' @ [CHR 0x0A, CHR 0x0A] @ ''<''
       @ (case p of None \<Rightarrow> ''undefined'' | Some q \<Rightarrow> url q)
       @ ''|View pull request>''"

text \<open>Lines 83 to 111. The message is sent and its outcome is not awaited.\<close>

definition alertOnSlack :: "jsstring list \<Rightarrow> Lottery \<Rightarrow> error option \<times> Lottery" where
  "alertOnSlack revs L =
     (case usernameToSlackMap (groups (config L)) of
        Inl e \<Rightarrow> (Some e, L)
      | Inr m \<Rightarrow>
          (None, L\<lparr>trace := trace L @ [Send (messageText (slackUsernames m revs) (pr L))]\<rparr>))"

subsection \<open>The workflow\<close>

text \<open>
  Lines 46 to 59. An error thrown by a step is caught at the end and reported, and the
  steps after it are not made. \<open>None\<close>: the selection does not return.
\<close>

definition run :: "(nat \<Rightarrow> real) \<Rightarrow> Lottery \<Rightarrow> Lottery option" where
  "run rnd L =
     (let (ready, L1) = isReadyToReview L
      in if ready then
           (case selectReviewers rnd L1 of
              None \<Rightarrow> None
            | Some (revs, L2) \<Rightarrow>
                if 0 < length revs then
                  (case setReviewers revs L2 of
                     (Some e, L3) \<Rightarrow> Some (fail e L3)
                   | (None, L3) \<Rightarrow>
                       (case alertOnSlack revs L3 of
                          (Some e, L4) \<Rightarrow> Some (fail e L4)
                        | (None, L4) \<Rightarrow> Some L4))
                else Some L2)
         else Some L1)"

subsection \<open>Examples\<close>

definition exampleEnv :: Env where
  "exampleEnv = \<lparr>repository = ''octo/repo'', ref = ''feature''\<rparr>"

definition examplePull :: "string \<Rightarrow> bool \<Rightarrow> Pull" where
  "examplePull login isDraft =
     \<lparr>user = Some login, number = 7, draft = Some isDraft, title = ''Fix'', url = ''pr/7''\<rparr>"

definition exampleLottery :: "Group list \<Rightarrow> Pull \<Rightarrow> Lottery" where
  "exampleLottery gs p =
     newLottery \<lparr>pullsList = Inr [(''feature'', p)], requestReviewers = None\<rparr>
       \<lparr>groups = gs\<rparr> exampleEnv"

definition groupB :: Group where
  "groupB = \<lparr>reviewers = Some 1, internal_reviewers = Some 2, usernames = Some [''a'', ''b'']\<rparr>"

definition groupA :: Group where
  "groupA = \<lparr>reviewers = Some 2, internal_reviewers = None, usernames = Some [''a'', ''b'', ''c'']\<rparr>"

definition soloGroup :: Group where
  "soloGroup = \<lparr>reviewers = Some 1, internal_reviewers = None, usernames = Some [''a'']\<rparr>"

definition zeroInternal :: Group where
  "zeroInternal =
     \<lparr>reviewers = Some 1, internal_reviewers = Some 0, usernames = Some [''a'', ''b'']\<rparr>"

definition noCount :: Group where
  "noCount =
     \<lparr>reviewers = None, internal_reviewers = Some 1, usernames = Some [''x:slack'', ''y'']\<rparr>"

definition internalGroup :: Group where
  "internalGroup =
     \<lparr>reviewers = Some 1, internal_reviewers = Some 2, usernames = Some [''a'', ''b'', ''c'']\<rparr>"

definition brokenGroup :: Group where
  "brokenGroup = \<lparr>reviewers = Some 1, internal_reviewers = None, usernames = None\<rparr>"

definition twoForms :: "Group list" where
  "twoForms =
     [\<lparr>reviewers = Some 1, internal_reviewers = None, usernames = Some [''ann'', ''bob'']\<rparr>,
      \<lparr>reviewers = Some 1, internal_reviewers = None, usernames = Some [''bob:U1'', ''cy:U2'']\<rparr>]"

subsection \<open>Predicates of the proofs\<close>

text \<open>The entries of a list that are not \<^verbatim>\<open>undefined\<close>.\<close>

definition defined :: "jsstring list \<Rightarrow> jsstring list" where
  "defined xs = filter (\<lambda>r. r \<noteq> None) xs"

text \<open>
  What holds of every result of the loop: the picks are pairwise distinct, there are
  exactly \<open>n\<close> of them, and each is \<^verbatim>\<open>undefined\<close>, an earlier pick or a candidate.
\<close>

definition pickPost ::
  "nat \<Rightarrow> nat \<Rightarrow> string list \<Rightarrow> jsstring list \<Rightarrow> jsstring list \<times> nat \<Rightarrow> bool" where
  "pickPost n k candidates picks y =
     (distinct picks \<longrightarrow> length picks \<le> n \<longrightarrow>
        distinct (fst y) \<and> length (fst y) = n \<and> k \<le> snd y \<and>
        set (fst y) \<subseteq> set picks \<union> Some ` set candidates \<union> {None})"

text \<open>
  The entries of all groups in the order of the configuration, and among them the last
  one whose username is \<open>u\<close>.
\<close>

definition allEntries :: "Group list \<Rightarrow> string list" where
  "allEntries gs = concat (map (\<lambda>g. case usernames g of None \<Rightarrow> [] | Some es \<Rightarrow> es) gs)"

definition lastEntry :: "string list \<Rightarrow> string \<Rightarrow> string option" where
  "lastEntry es u =
     (case rev (filter (\<lambda>e. hd (js_split CHR '':'' e) = u) es) of
        [] \<Rightarrow> None
      | e # _ \<Rightarrow> Some e)"

section \<open>Properties\<close>

subsection \<open>Facts about the primitives\<close>

lemma js_split_nonempty: "js_split sep s \<noteq> []"
  by (induction s) (auto split: list.splits)

lemma hd_js_split: "hd (js_split sep s) = takeWhile (\<lambda>c. c \<noteq> sep) s"
  by (induction s) (auto split: list.splits simp: js_split_nonempty)

lemma js_split_no_separator: "sep \<notin> set s \<Longrightarrow> js_split sep s = [s]"
  by (induction s) auto

lemma js_split_bare:
  assumes "hd (js_split sep s) = s"
  shows "js_split sep s = [s]"
proof -
  from assms have "takeWhile (\<lambda>c. c \<noteq> sep) s = s" by (simp add: hd_js_split)
  then have "sep \<notin> set s" by (auto simp: takeWhile_eq_all_conv)
  then show ?thesis by (rule js_split_no_separator)
qed

lemma randomIndex_less:
  assumes "0 \<le> r" and "r < 1" and "0 < len"
  shows "randomIndex r len < len"
proof -
  have "r * real len < real len" using assms by simp
  then have "\<lfloor>r * real len\<rfloor> < int len" by (simp add: floor_less_iff)
  moreover have "0 \<le> \<lfloor>r * real len\<rfloor>" using assms by simp
  ultimately show ?thesis by (simp add: randomIndex_def nat_less_iff)
qed

lemma randomIndex_unit:
  "unitInterval rnd \<Longrightarrow> xs \<noteq> [] \<Longrightarrow> randomIndex (rnd k) (length xs) < length xs"
  by (rule randomIndex_less) (simp_all add: unitInterval_def)

lemma randomIndex_empty: "randomIndex r 0 = 0"
  by (simp add: randomIndex_def)

lemma randomIndex_single: "unitInterval rnd \<Longrightarrow> randomIndex (rnd k) (Suc 0) = 0"
  using randomIndex_less[of "rnd k" "Suc 0"] by (simp add: unitInterval_def)

lemma unitInterval_const: "0 \<le> r \<Longrightarrow> r < 1 \<Longrightarrow> unitInterval (constRandom r)"
  by (simp add: unitInterval_def constRandom_def)

lemma splice1_in_range:
  "i < length xs \<Longrightarrow> splice1 i xs = ([xs ! i], take i xs @ drop (Suc i) xs)"
  by (simp add: splice1_def take_Suc_conv_app_nth Cons_nth_drop_Suc[symmetric])

lemma splice1_out_of_range: "length xs \<le> i \<Longrightarrow> splice1 i xs = ([], xs)"
  by (simp add: splice1_def)

lemma set_splice1_rest: "set (snd (splice1 i xs)) \<subseteq> set xs"
  by (auto simp: splice1_def dest: in_set_takeD in_set_dropD)

lemma length_splice1_rest: "i < length xs \<Longrightarrow> length (snd (splice1 i xs)) < length xs"
  by (simp add: splice1_def)

lemma set_splice1_cover:
  assumes "i < length xs"
  shows "set xs \<subseteq> insert (xs ! i) (set (snd (splice1 i xs)))"
proof -
  have "set xs = set (take i xs @ xs ! i # drop (Suc i) xs)"
    by (rule arg_cong[where f = set]) (rule id_take_nth_drop[OF assms])
  then show ?thesis by (auto simp: splice1_def)
qed

lemma set_splice1_exact:
  assumes "i < length xs"
  shows "insert (xs ! i) (set (snd (splice1 i xs))) = set xs"
proof
  show "insert (xs ! i) (set (snd (splice1 i xs))) \<subseteq> set xs"
    using assms set_splice1_rest[of i xs] by auto
  show "set xs \<subseteq> insert (xs ! i) (set (snd (splice1 i xs)))"
    by (rule set_splice1_cover[OF assms])
qed

lemma removed_splice1: "js_nth (fst (splice1 i xs)) 0 \<in> Some ` set xs \<union> {None}"
  by (cases "i < length xs") (simp_all add: splice1_in_range splice1_out_of_range js_nth_def)

subsection \<open>The sampling loop\<close>

text \<open>One iteration, in the three situations the loop can be in.\<close>

lemma pickLoop_done:
  "\<not> length picks < n \<Longrightarrow> pickLoop rnd n k candidates picks = Some (picks, k)"
  by (subst pickLoop.simps) simp

lemma pickLoop_step:
  assumes "length picks < n" and "unitInterval rnd" and "candidates \<noteq> []"
  shows "\<exists>i < length candidates.
           pickLoop rnd n k candidates picks =
           pickLoop rnd n (Suc k) (snd (splice1 i candidates))
             (if Some (candidates ! i) \<in> set picks then picks
              else picks @ [Some (candidates ! i)])"
proof -
  define i where "i = randomIndex (rnd k) (length candidates)"
  have i: "i < length candidates"
    unfolding i_def using assms(2,3) by (rule randomIndex_unit)
  have "pickLoop rnd n k candidates picks =
           pickLoop rnd n (Suc k) (snd (splice1 i candidates))
             (if Some (candidates ! i) \<in> set picks then picks
              else picks @ [Some (candidates ! i)])"
    by (subst pickLoop.simps)
       (simp add: assms(1) Let_def i_def[symmetric] splice1_in_range[OF i] js_nth_def)
  with i show ?thesis by blast
qed

lemma pickLoop_step_empty:
  assumes "length picks < n"
  shows "pickLoop rnd n k [] picks =
         pickLoop rnd n (Suc k) [] (if None \<in> set picks then picks else picks @ [None])"
  by (subst pickLoop.simps) (simp add: assms Let_def randomIndex_empty splice1_def js_nth_def)

lemma pickLoop_post:
  assumes "pickLoop rnd n k candidates picks = Some y"
  shows "pickPost n k candidates picks y"
proof (rule pickLoop.raw_induct
    [where P = "\<lambda>rnd n k candidates picks y. pickPost n k candidates picks y", OF _ assms],
    unfold pickPost_def, goal_cases)
  case (1 loop rnd n k candidates picks y)
  show ?case
  proof (cases "length picks < n")
    case False
    with 1(2) have "y = (picks, k)" by simp
    then show ?thesis using False by auto
  next
    case True
    define sp where "sp = splice1 (randomIndex (rnd k) (length candidates)) candidates"
    define pick where "pick = js_nth (fst sp) 0"
    define picks2 where "picks2 = (if pick \<in> set picks then picks else picks @ [pick])"
    from True 1(2) have call: "loop rnd n (Suc k) (snd sp) picks2 = Some y"
      unfolding Let_def sp_def pick_def picks2_def by (simp only: if_True)
    note ih = 1(1)[OF call]
    show ?thesis
    proof (intro impI)
      assume d: "distinct picks" and "length picks \<le> n"
      have d': "distinct picks2" using d by (simp add: picks2_def)
      have l': "length picks2 \<le> n" using True by (simp add: picks2_def)
      note r = mp[OF mp[OF ih d'] l']
      have "pick \<in> Some ` set candidates \<union> {None}"
        unfolding pick_def sp_def by (rule removed_splice1)
      then have s1: "set picks2 \<subseteq> set picks \<union> Some ` set candidates \<union> {None}"
        by (auto simp: picks2_def)
      have s2: "Some ` set (snd sp) \<subseteq> Some ` set candidates"
        unfolding sp_def by (rule image_mono) (rule set_splice1_rest)
      have "set (fst y) \<subseteq> set picks2 \<union> Some ` set (snd sp) \<union> {None}"
        using r by simp
      with s1 s2 have "set (fst y) \<subseteq> set picks \<union> Some ` set candidates \<union> {None}"
        by blast
      moreover have "k \<le> snd y" using r by simp
      ultimately show "distinct (fst y) \<and> length (fst y) = n \<and> k \<le> snd y \<and>
        set (fst y) \<subseteq> set picks \<union> Some ` set candidates \<union> {None}"
        using r by blast
    qed
  qed
qed

lemma pickLoop_result:
  assumes "pickLoop rnd n k candidates [] = Some (picks, k')"
  shows "distinct picks" and "length picks = n" and "k \<le> k'"
    and "set picks \<subseteq> Some ` set candidates \<union> {None}"
  using pickLoop_post[OF assms] by (simp_all add: pickPost_def)

text \<open>More picks than the distinct candidates and one: the loop never ends.\<close>

lemma pickLoop_diverges:
  assumes "card (set candidates) + 1 < n"
  shows "pickLoop rnd n k candidates [] = None"
proof (cases "pickLoop rnd n k candidates []")
  case None
  then show ?thesis .
next
  case (Some y)
  obtain picks k' where y: "y = (picks, k')" by (cases y)
  note r = pickLoop_result[OF Some[unfolded y]]
  have "n = card (set picks)" using r(1,2) by (simp add: distinct_card)
  also have "\<dots> \<le> card (Some ` set candidates \<union> {None})"
    using r(4) by (intro card_mono) auto
  also have "\<dots> \<le> card (set candidates) + 1"
    by (simp add: card_image card_insert_if)
  finally show ?thesis using assms by simp
qed

text \<open>At most as many picks as distinct candidates: the loop ends, without \<^verbatim>\<open>undefined\<close>.\<close>

lemma pickLoop_terminates:
  assumes "unitInterval rnd"
  shows "distinct picks \<Longrightarrow> None \<notin> set picks \<Longrightarrow>
         n \<le> card (set picks \<union> Some ` set candidates) \<Longrightarrow>
         \<exists>picks' k'. pickLoop rnd n k candidates picks = Some (picks', k') \<and> None \<notin> set picks'"
proof (induction candidates arbitrary: picks k rule: length_induct)
  case (1 candidates)
  show ?case
  proof (cases "length picks < n")
    case False
    then show ?thesis using 1(3) by (simp add: pickLoop_done)
  next
    case True
    have "card (set picks) < n" using True 1(2) by (simp add: distinct_card)
    with 1(4) have ne: "candidates \<noteq> []" by auto
    from pickLoop_step[OF True assms ne, of k] obtain i where i: "i < length candidates"
      and eq: "pickLoop rnd n k candidates picks =
           pickLoop rnd n (Suc k) (snd (splice1 i candidates))
             (if Some (candidates ! i) \<in> set picks then picks
              else picks @ [Some (candidates ! i)])"
      by blast
    define rest where "rest = snd (splice1 i candidates)"
    define picks2 where
      "picks2 = (if Some (candidates ! i) \<in> set picks then picks
                 else picks @ [Some (candidates ! i)])"
    have l: "length rest < length candidates"
      unfolding rest_def by (rule length_splice1_rest[OF i])
    have d: "distinct picks2" using 1(2) by (simp add: picks2_def)
    have nn: "None \<notin> set picks2" using 1(3) by (simp add: picks2_def)
    have "set candidates \<subseteq> insert (candidates ! i) (set rest)"
      unfolding rest_def by (rule set_splice1_cover[OF i])
    moreover have "Some (candidates ! i) \<in> set picks2" by (simp add: picks2_def)
    moreover have "set picks \<subseteq> set picks2" by (auto simp: picks2_def)
    ultimately have "set picks \<union> Some ` set candidates \<subseteq> set picks2 \<union> Some ` set rest"
      by blast
    then have "card (set picks \<union> Some ` set candidates) \<le> card (set picks2 \<union> Some ` set rest)"
      by (intro card_mono) auto
    with 1(4) have c: "n \<le> card (set picks2 \<union> Some ` set rest)" by simp
    from 1(1)[rule_format, OF l d nn c, of "Suc k"] eq show ?thesis
      by (simp add: rest_def picks2_def)
  qed
qed

text \<open>
  One pick more than there are distinct candidates: the loop ends with every
  candidate picked and \<^verbatim>\<open>undefined\<close> as the last pick.
\<close>

lemma pickLoop_exhausted:
  assumes "unitInterval rnd"
  shows "distinct picks \<Longrightarrow> None \<notin> set picks \<Longrightarrow>
         n = Suc (card (set picks \<union> Some ` set candidates)) \<Longrightarrow>
         \<exists>picks' k'. pickLoop rnd n k candidates picks = Some (picks' @ [None], k') \<and>
            set picks' = set picks \<union> Some ` set candidates"
proof (induction candidates arbitrary: picks k rule: length_induct)
  case (1 candidates)
  have "card (set picks) \<le> card (set picks \<union> Some ` set candidates)"
    by (intro card_mono) auto
  then have less: "length picks < n" using 1(2,4) by (simp add: distinct_card)
  show ?case
  proof (cases "candidates = []")
    case True
    have "length picks = card (set picks)" using 1(2) by (simp add: distinct_card)
    then have "\<not> length (picks @ [None]) < n" using 1(4) True by simp
    then have "pickLoop rnd n (Suc k) [] (picks @ [None]) = Some (picks @ [None], Suc k)"
      by (rule pickLoop_done)
    then have "pickLoop rnd n k candidates picks = Some (picks @ [None], Suc k)"
      using True 1(3) by (simp add: pickLoop_step_empty[OF less])
    then show ?thesis using True by auto
  next
    case False
    from pickLoop_step[OF less assms False, of k] obtain i where i: "i < length candidates"
      and eq: "pickLoop rnd n k candidates picks =
           pickLoop rnd n (Suc k) (snd (splice1 i candidates))
             (if Some (candidates ! i) \<in> set picks then picks
              else picks @ [Some (candidates ! i)])"
      by blast
    define rest where "rest = snd (splice1 i candidates)"
    define picks2 where
      "picks2 = (if Some (candidates ! i) \<in> set picks then picks
                 else picks @ [Some (candidates ! i)])"
    have l: "length rest < length candidates"
      unfolding rest_def by (rule length_splice1_rest[OF i])
    have d: "distinct picks2" using 1(2) by (simp add: picks2_def)
    have nn: "None \<notin> set picks2" using 1(3) by (simp add: picks2_def)
    have c: "insert (candidates ! i) (set rest) = set candidates"
      unfolding rest_def by (rule set_splice1_exact[OF i])
    have p: "set picks2 = insert (Some (candidates ! i)) (set picks)"
      by (auto simp: picks2_def)
    have s: "set picks2 \<union> Some ` set rest = set picks \<union> Some ` set candidates"
      unfolding p c[symmetric] by auto
    from 1(4) have n: "n = Suc (card (set picks2 \<union> Some ` set rest))" by (simp only: s)
    from 1(1)[rule_format, OF l d nn n, of "Suc k"] eq show ?thesis
      by (simp add: rest_def[symmetric] picks2_def[symmetric] s)
  qed
qed

subsection \<open>The sampler\<close>

lemma set_eligible: "set (eligible items ignore) = {x \<in> set items. Some x \<notin> set ignore}"
  by (simp add: eligible_def)

lemma pickRandom_result:
  assumes "pickRandom rnd k items n ignore = Some (picks, k')"
  shows "distinct picks" and "length picks = n" and "k \<le> k'"
    and "set picks \<subseteq> Some ` set (eligible items ignore) \<union> {None}"
  using pickLoop_result[OF assms[unfolded pickRandom_def]] by simp_all

lemma pickRandom_defined:
  assumes "pickRandom rnd k items n ignore = Some (picks, k')" and "Some x \<in> set picks"
  shows "x \<in> set items" and "Some x \<notin> set ignore"
  using pickRandom_result(4)[OF assms(1)] assms(2) by (auto simp: set_eligible)

lemma pickRandom_diverges:
  "card (set (eligible items ignore)) + 1 < n \<Longrightarrow> pickRandom rnd k items n ignore = None"
  unfolding pickRandom_def by (rule pickLoop_diverges)

lemma pickRandom_terminates:
  assumes "unitInterval rnd" and "n \<le> card (set (eligible items ignore))"
  shows "\<exists>picks k'. pickRandom rnd k items n ignore = Some (picks, k') \<and> None \<notin> set picks"
  unfolding pickRandom_def
  using pickLoop_terminates[OF assms(1), of "[]" n "eligible items ignore" k] assms(2)
  by (simp add: card_image)

lemma pickRandom_exhausted:
  assumes "unitInterval rnd" and "n = Suc (card (set (eligible items ignore)))"
  shows "\<exists>picks k'. pickRandom rnd k items n ignore = Some (picks @ [None], k') \<and>
           set picks = Some ` set (eligible items ignore)"
proof -
  have "card (Some ` set (eligible items ignore)) = card (set (eligible items ignore))"
    by (simp add: card_image)
  with assms(2) have "n = Suc (card (set [] \<union> Some ` set (eligible items ignore)))"
    by simp
  from pickLoop_exhausted[OF assms(1) _ _ this, of k] show ?thesis
    by (simp add: pickRandom_def)
qed

text \<open>
  When the random source stays in \<open>[0, 1)\<close>, the sampler returns exactly when \<open>n\<close> is at
  most one more than the number of distinct items that are not ignored.
\<close>

lemma pickRandom_returns_iff:
  assumes "unitInterval rnd"
  shows "(\<exists>y. pickRandom rnd k items n ignore = Some y)
           \<longleftrightarrow> n \<le> Suc (card (set (eligible items ignore)))"
proof (cases "n \<le> card (set (eligible items ignore))")
  case True
  with pickRandom_terminates[OF assms True, of k] show ?thesis by auto
next
  case False
  show ?thesis
  proof (cases "n = Suc (card (set (eligible items ignore)))")
    case True
    with pickRandom_exhausted[OF assms True, of k] show ?thesis by auto
  next
    case f: False
    with False have "card (set (eligible items ignore)) + 1 < n" by simp
    from pickRandom_diverges[OF this, of rnd k] f False show ?thesis by simp
  qed
qed

text \<open>
  Within the pool the sampler does what is asked of it. When the random source stays
  in \<open>[0, 1)\<close> and \<open>n\<close> is at most the number of distinct items that are not ignored,
  the sampler returns; the result has exactly \<open>n\<close> elements, which is the minimum of
  \<open>n\<close> and the size of that pool; every element is an item, none is ignored, and the
  elements are pairwise distinct.
\<close>

theorem pickRandom_within_pool:
  assumes "unitInterval rnd" and "n \<le> card (set (eligible items ignore))"
  shows "\<exists>picks k'. pickRandom rnd k items n ignore = Some (picks, k') \<and>
           length picks = min n (card (set (eligible items ignore))) \<and>
           set picks \<subseteq> Some ` set items \<and>
           set picks \<inter> set ignore = {} \<and>
           distinct picks"
proof -
  from pickRandom_terminates[OF assms, of k] obtain picks k'
    where r: "pickRandom rnd k items n ignore = Some (picks, k')" and nn: "None \<notin> set picks"
    by blast
  note p = pickRandom_result[OF r]
  have l: "length picks = min n (card (set (eligible items ignore)))"
    using p(2) assms(2) by simp
  have sub: "set picks \<subseteq> Some ` {x \<in> set items. Some x \<notin> set ignore}"
    using p(4) nn by (auto simp: set_eligible)
  then have s: "set picks \<subseteq> Some ` set items" by blast
  have i: "set picks \<inter> set ignore = {}" using sub by blast
  from r l s i p(1) show ?thesis by blast
qed

theorem pickRandom_within_pool_witness:
  "unitInterval (constRandom (1/2)) \<and>
   (2::nat) \<le> card (set (eligible [''a'', ''b'', ''c''] [Some ''a''])) \<and>
   (\<exists>picks k'. pickRandom (constRandom (1/2)) 0 [''a'', ''b'', ''c''] 2 [Some ''a'']
        = Some (picks, k') \<and>
      length picks = min 2 (card (set (eligible [''a'', ''b'', ''c''] [Some ''a'']))) \<and>
      set picks \<subseteq> Some ` set [''a'', ''b'', ''c''] \<and>
      set picks \<inter> set [Some ''a''] = {} \<and>
      distinct picks)"
proof -
  have u: "unitInterval (constRandom (1/2))"
    by (simp add: unitInterval_def constRandom_def)
  have c: "(2::nat) \<le> card (set (eligible [''a'', ''b'', ''c''] [Some ''a'']))"
    by (simp add: eligible_def)
  from u c pickRandom_within_pool[OF u c, of 0] show ?thesis by blast
qed

text \<open>
  C1 does not hold of the code when \<open>n\<close> is larger than the pool. The call
  \<^verbatim>\<open>pickRandom(["b"], 2, [])\<close> returns \<^verbatim>\<open>["b", undefined]\<close>: two elements where the
  minimum of \<open>n\<close> and the size of the pool is one, and \<^verbatim>\<open>undefined\<close> is not an item.
\<close>

theorem pickRandom_pool_exhausted:
  "unitInterval (constRandom 0) \<and>
   pickRandom (constRandom 0) 0 [''b''] 2 [] = Some ([Some ''b'', None], 2) \<and>
   length [Some ''b'', None] \<noteq> min 2 (card (set (eligible [''b''] []))) \<and>
   \<not> set [Some ''b'', None] \<subseteq> Some ` set [''b'']"
  by (simp add: unitInterval_def constRandom_def pickRandom_def eligible_def pickLoop.simps
        randomIndex_def splice1_def js_nth_def)

text \<open>
  C2 does not hold of the code. The call \<^verbatim>\<open>pickRandom(["a"], 3, [])\<close> does not return,
  whatever the random source gives: the one eligible item is picked, then
  \<^verbatim>\<open>undefined\<close> once, and the third pick never comes.
\<close>

theorem pickRandom_no_return:
  "pickRandom rnd k [''a''] 3 [] = None"
  by (rule pickRandom_diverges) (simp add: eligible_def)

subsection \<open>The loop over the groups\<close>

lemma defined_append: "defined (xs @ ys) = defined xs @ defined ys"
  by (simp add: defined_def)

lemma set_defined: "set (defined xs) = set xs - {None}"
  by (auto simp: defined_def)

lemma selectLoop_skip:
  assumes "usernames g = Some names"
    and "\<not> truthyNumber (reviewersToRequest author g (stripHandles names))"
  shows "selectLoop rnd author (g # gs) k selected = selectLoop rnd author gs k selected"
  using assms by (simp add: Let_def)

lemma selectLoop_pick:
  assumes "usernames g = Some names"
    and "reviewersToRequest author g (stripHandles names) = Some n" and "n \<noteq> 0"
  shows "selectLoop rnd author (g # gs) k selected =
           (case pickRandom rnd k (stripHandles names) n (selected @ [Some author]) of
              None \<Rightarrow> None
            | Some (picks, k') \<Rightarrow> selectLoop rnd author gs k' (selected @ picks))"
  using assms by (simp add: Let_def truthyNumber_def)

lemma selectLoop_throw:
  assumes "usernames g = None"
  shows "selectLoop rnd author (g # gs) k selected = Some ((selected, Some TypeError), k)"
  using assms by simp

lemma truthyNumber_cases:
  obtains (falsy) "\<not> truthyNumber v" | (count) n where "v = Some n" and "n \<noteq> 0"
  by (cases v) (auto simp: truthyNumber_def)

text \<open>
  The list \<^verbatim>\<open>selected\<close> never holds the author, and its usernames (the entries that are
  not \<^verbatim>\<open>undefined\<close>) stay pairwise distinct.
\<close>

lemma selectLoop_invariant:
  "selectLoop rnd author gs k selected = Some ((result, err), k') \<Longrightarrow>
   Some author \<notin> set selected \<Longrightarrow> distinct (defined selected) \<Longrightarrow>
   Some author \<notin> set result \<and> distinct (defined result)"
proof (induction gs arbitrary: k selected)
  case Nil
  then show ?case by simp
next
  case (Cons g gs)
  show ?case
  proof (cases "usernames g")
    case None
    with Cons.prems show ?thesis by simp
  next
    case (Some names)
    show ?thesis
    proof (cases "reviewersToRequest author g (stripHandles names)" rule: truthyNumber_cases)
      case falsy
      from Cons.prems(1) have "selectLoop rnd author gs k selected = Some ((result, err), k')"
        by (simp only: selectLoop_skip[OF Some falsy])
      from Cons.IH[OF this Cons.prems(2,3)] show ?thesis .
    next
      case (count n)
      note eq = selectLoop_pick[OF Some count, of rnd gs k selected]
      from Cons.prems(1) eq obtain picks k1
        where p: "pickRandom rnd k (stripHandles names) n (selected @ [Some author]) = Some (picks, k1)"
          and rest: "selectLoop rnd author gs k1 (selected @ picks) = Some ((result, err), k')"
        by (auto split: option.splits)
      have fresh: "Some x \<notin> set selected \<and> x \<noteq> author" if "Some x \<in> set picks" for x
        using pickRandom_defined(2)[OF p that] by simp
      have a: "Some author \<notin> set (selected @ picks)"
        using Cons.prems(2) fresh by auto
      have "distinct picks" by (rule pickRandom_result(1)[OF p])
      then have dp: "distinct (defined picks)" by (simp add: defined_def)
      have "set (defined selected) \<inter> set (defined picks) = {}"
      proof (rule ccontr)
        assume "set (defined selected) \<inter> set (defined picks) \<noteq> {}"
        then obtain r where r: "r \<in> set selected" "r \<in> set picks" "r \<noteq> None"
          by (auto simp: set_defined)
        then obtain x where "r = Some x" by (cases r) auto
        with r fresh[of x] show False by simp
      qed
      with Cons.prems(3) dp have d: "distinct (defined (selected @ picks))"
        by (simp add: defined_append)
      from Cons.IH[OF rest a d] show ?thesis .
    qed
  qed
qed

text \<open>Processing a list of groups is processing its parts in turn, unless an error ends it.\<close>

lemma selectLoop_append:
  "selectLoop rnd author (gs @ hs) k selected =
     (case selectLoop rnd author gs k selected of
        None \<Rightarrow> None
      | Some ((result, Some e), k') \<Rightarrow> Some ((result, Some e), k')
      | Some ((result, None), k') \<Rightarrow> selectLoop rnd author hs k' result)"
proof (induction gs arbitrary: k selected)
  case Nil
  show ?case by simp
next
  case (Cons g gs)
  show ?case
  proof (cases "usernames g")
    case None
    then show ?thesis by simp
  next
    case (Some names)
    show ?thesis
    proof (cases "reviewersToRequest author g (stripHandles names)" rule: truthyNumber_cases)
      case falsy
      show ?thesis
        using Cons.IH[of k selected]
        by (simp only: append_Cons selectLoop_skip[OF Some falsy])
    next
      case (count n)
      show ?thesis
      proof (cases "pickRandom rnd k (stripHandles names) n (selected @ [Some author])")
        case None
        then show ?thesis
          by (simp only: append_Cons selectLoop_pick[OF Some count] option.case)
      next
        case (Some y)
        obtain picks k1 where y: "y = (picks, k1)" by (cases y)
        show ?thesis
          using Cons.IH[of k1 "selected @ picks"]
          by (simp only: append_Cons selectLoop_pick[OF \<open>usernames g = Some names\<close> count]
                Some y option.case prod.case)
      qed
    qed
  qed
qed

subsection \<open>The selector\<close>

lemma getPR_frame:
  "config (snd (getPR L)) = config L" "draws (snd (getPR L)) = draws L"
  "octokit (snd (getPR L)) = octokit L" "env (snd (getPR L)) = env L"
  by (auto simp: getPR_def fail_def Let_def split: option.splits sum.splits prod.splits)

lemma getPRAuthor_frame:
  "config (snd (getPRAuthor L)) = config L" "draws (snd (getPRAuthor L)) = draws L"
  by (simp_all add: getPRAuthor_def split_beta getPR_frame)

lemma selectReviewers_loop:
  assumes "selectReviewers rnd L = Some (selected, L')"
  shows "\<exists>err k. selectLoop rnd (fst (getPRAuthor L)) (groups (config L)) (draws L) []
                   = Some ((selected, err), k)"
  using assms
  by (auto simp: selectReviewers_def split_beta getPRAuthor_frame split: option.splits)

lemma selectReviewers_of_loop:
  assumes "selectLoop rnd (fst (getPRAuthor L)) (groups (config L)) (draws L) []
             = Some ((selected, err), k)"
  shows "selectReviewers rnd L =
           Some (selected, (case err of None \<Rightarrow> snd (getPRAuthor L)
                            | Some e \<Rightarrow> fail e (snd (getPRAuthor L)))\<lparr>draws := k\<rparr>)"
  using assms by (simp add: selectReviewers_def split_beta getPRAuthor_frame)

text \<open>The definitions that evaluating an example unfolds.\<close>

lemmas example_defs = exampleEnv_def examplePull_def exampleLottery_def newLottery_def

lemmas fetch_defs = getPR_def getPRAuthor_def getOwnerAndRepo_def js_nth_def fail_def

lemmas pick_defs = pickRandom_def eligible_def pickLoop.simps randomIndex_def splice1_def
  stripHandles_def reviewersToRequest_def truthyNumber_def

lemma selectLoop_groupB:
  assumes "unitInterval rnd"
  shows "selectLoop rnd ''a'' [groupB] k [] = Some (([Some ''b'', None], None), Suc (Suc k))"
proof -
  have p: "pickLoop rnd 2 k [''b''] [] = Some ([Some ''b'', None], Suc (Suc k))"
    by (simp add: pickLoop.simps randomIndex_single[OF assms] randomIndex_empty
          splice1_def js_nth_def)
  show ?thesis
    by (simp add: groupB_def stripHandles_def reviewersToRequest_def truthyNumber_def
          pickRandom_def eligible_def p)
qed

text \<open>
  C3 does not hold of the code. For the single group with usernames \<^verbatim>\<open>a\<close> and \<^verbatim>\<open>b\<close>,
  one reviewer and two internal reviewers, and the author \<^verbatim>\<open>a\<close>: the draw count is
  2 and the pool without the author is \<^verbatim>\<open>b\<close> alone, as the claim has it, but
  \<^verbatim>\<open>selectReviewers\<close> returns the two elements \<^verbatim>\<open>b\<close> and \<^verbatim>\<open>undefined\<close>, whatever the
  random source in \<open>[0, 1)\<close> gives. The reviewers that \<^verbatim>\<open>setReviewers\<close> puts in the
  request are \<^verbatim>\<open>b\<close> alone.
\<close>

theorem scenario_B:
  assumes "unitInterval rnd"
    and "groups (config L) = [groupB]"
    and "fst (getPRAuthor L) = ''a''"
  shows "reviewersToRequest ''a'' groupB (stripHandles [''a'', ''b'']) = Some 2 \<and>
         eligible (stripHandles [''a'', ''b'']) [Some ''a''] = [''b''] \<and>
         map_option fst (selectReviewers rnd L) = Some [Some ''b'', None] \<and>
         filter truthyString [Some ''b'', None] = [Some ''b'']"
proof -
  have "selectLoop rnd (fst (getPRAuthor L)) (groups (config L)) (draws L) []
          = Some (([Some ''b'', None], None), Suc (Suc (draws L)))"
    unfolding assms(2,3) by (rule selectLoop_groupB[OF assms(1)])
  from selectReviewers_of_loop[OF this]
  have "map_option fst (selectReviewers rnd L) = Some [Some ''b'', None]" by simp
  then show ?thesis
    by (simp add: groupB_def stripHandles_def reviewersToRequest_def truthyNumber_def
          eligible_def truthyString_def)
qed

theorem scenario_B_witness:
  "unitInterval (constRandom 0) \<and>
   groups (config (exampleLottery [groupB] (examplePull ''a'' False))) = [groupB] \<and>
   fst (getPRAuthor (exampleLottery [groupB] (examplePull ''a'' False))) = ''a'' \<and>
   map_option fst (selectReviewers (constRandom 0) (exampleLottery [groupB] (examplePull ''a'' False)))
     = Some [Some ''b'', None]"
proof -
  have u: "unitInterval (constRandom 0)" by (simp add: unitInterval_const)
  have g: "groups (config (exampleLottery [groupB] (examplePull ''a'' False))) = [groupB]"
    by (simp add: example_defs)
  have a: "fst (getPRAuthor (exampleLottery [groupB] (examplePull ''a'' False))) = ''a''"
    by (simp add: example_defs fetch_defs)
  from u g a scenario_B[OF u g a] show ?thesis by simp
qed

text \<open>
  C4, as the code has it. The pool is the usernames without what follows the first
  colon. The draw count is \<^verbatim>\<open>internal_reviewers\<close> exactly when the author is in the pool
  and \<^verbatim>\<open>internal_reviewers\<close> is defined and not zero, and \<^verbatim>\<open>reviewers\<close> otherwise, and it
  is the count that the loop hands to the sampler: with the author in the pool and an
  internal count \<open>n\<close> that is not zero the loop draws \<open>n\<close> from the pool, otherwise it
  draws the count \<^verbatim>\<open>reviewers\<close> when that is not zero. A group whose draw count is
  \<^verbatim>\<open>undefined\<close> or zero is passed over: nothing is picked, nothing is thrown, and the
  loop goes on with the next group.
\<close>

theorem draw_count:
  "stripHandles names = map (takeWhile (\<lambda>c. c \<noteq> CHR '':'')) names \<and>
   reviewersToRequest author g pool =
     (if author \<in> set pool \<and> (\<exists>n. internal_reviewers g = Some n \<and> n \<noteq> 0)
      then internal_reviewers g else reviewers g) \<and>
   (usernames g = Some names \<and>
    (reviewersToRequest author g (stripHandles names) = None \<or>
     reviewersToRequest author g (stripHandles names) = Some 0) \<longrightarrow>
      selectLoop rnd author (g # gs) k selected = selectLoop rnd author gs k selected) \<and>
   (usernames g = Some names \<and> author \<in> set (stripHandles names) \<and>
    internal_reviewers g = Some n \<and> n \<noteq> 0 \<longrightarrow>
      selectLoop rnd author (g # gs) k selected =
        (case pickRandom rnd k (stripHandles names) n (selected @ [Some author]) of
           None \<Rightarrow> None
         | Some (picks, k') \<Rightarrow> selectLoop rnd author gs k' (selected @ picks))) \<and>
   (usernames g = Some names \<and>
    (author \<notin> set (stripHandles names) \<or> internal_reviewers g = None \<or>
     internal_reviewers g = Some 0) \<and>
    reviewers g = Some n \<and> n \<noteq> 0 \<longrightarrow>
      selectLoop rnd author (g # gs) k selected =
        (case pickRandom rnd k (stripHandles names) n (selected @ [Some author]) of
           None \<Rightarrow> None
         | Some (picks, k') \<Rightarrow> selectLoop rnd author gs k' (selected @ picks)))"
proof -
  have strip: "stripHandles names = map (takeWhile (\<lambda>c. c \<noteq> CHR '':'')) names"
    by (simp add: stripHandles_def hd_js_split)
  have count: "reviewersToRequest author g pool =
     (if author \<in> set pool \<and> (\<exists>n. internal_reviewers g = Some n \<and> n \<noteq> 0)
      then internal_reviewers g else reviewers g)" for pool
    by (cases "internal_reviewers g") (simp_all add: reviewersToRequest_def truthyNumber_def)
  have skip: "selectLoop rnd author (g # gs) k selected = selectLoop rnd author gs k selected"
    if h: "usernames g = Some names \<and>
      (reviewersToRequest author g (stripHandles names) = None \<or>
       reviewersToRequest author g (stripHandles names) = Some 0)"
  proof -
    from h have "\<not> truthyNumber (reviewersToRequest author g (stripHandles names))"
      by (auto simp: truthyNumber_def)
    with h show ?thesis by (intro selectLoop_skip) simp_all
  qed
  have internal: "selectLoop rnd author (g # gs) k selected =
        (case pickRandom rnd k (stripHandles names) n (selected @ [Some author]) of
           None \<Rightarrow> None
         | Some (picks, k') \<Rightarrow> selectLoop rnd author gs k' (selected @ picks))"
    if h: "usernames g = Some names \<and> author \<in> set (stripHandles names) \<and>
      internal_reviewers g = Some n \<and> n \<noteq> 0"
  proof -
    from h have "reviewersToRequest author g (stripHandles names) = Some n"
      by (simp add: count)
    with h show ?thesis by (intro selectLoop_pick) simp_all
  qed
  have external: "selectLoop rnd author (g # gs) k selected =
        (case pickRandom rnd k (stripHandles names) n (selected @ [Some author]) of
           None \<Rightarrow> None
         | Some (picks, k') \<Rightarrow> selectLoop rnd author gs k' (selected @ picks))"
    if h: "usernames g = Some names \<and>
      (author \<notin> set (stripHandles names) \<or> internal_reviewers g = None \<or>
       internal_reviewers g = Some 0) \<and>
      reviewers g = Some n \<and> n \<noteq> 0"
  proof -
    from h have "reviewersToRequest author g (stripHandles names) = Some n"
      by (auto simp: count)
    with h show ?thesis by (intro selectLoop_pick) simp_all
  qed
  from strip count skip internal external show ?thesis by blast
qed

theorem draw_count_witness:
  "usernames noCount = Some [''x:slack'', ''y''] \<and>
   reviewersToRequest ''a'' noCount (stripHandles [''x:slack'', ''y'']) = None \<and>
   stripHandles [''x:slack'', ''y''] = [''x'', ''y''] \<and>
   selectLoop (constRandom 0) ''a'' [noCount, groupA] 0 [] =
     selectLoop (constRandom 0) ''a'' [groupA] 0 [] \<and>
   usernames internalGroup = Some [''a'', ''b'', ''c''] \<and>
   ''a'' \<in> set (stripHandles [''a'', ''b'', ''c'']) \<and>
   internal_reviewers internalGroup = Some 2 \<and> (2::nat) \<noteq> 0 \<and>
   selectLoop (constRandom 0) ''a'' [internalGroup] 0 []
     = Some (([Some ''b'', Some ''c''], None), 2) \<and>
   ''z'' \<notin> set (stripHandles [''a'', ''b'', ''c'']) \<and>
   reviewers internalGroup = Some 1 \<and> (1::nat) \<noteq> 0 \<and>
   selectLoop (constRandom 0) ''z'' [internalGroup] 0 []
     = Some (([Some ''a''], None), 1) \<and>
   map_option fst
     (selectReviewers (constRandom 0) (exampleLottery [internalGroup] (examplePull ''a'' False)))
     = Some [Some ''b'', Some ''c'']"
proof -
  have u: "usernames noCount = Some [''x:slack'', ''y'']" by (simp add: noCount_def)
  have c: "reviewersToRequest ''a'' noCount (stripHandles [''x:slack'', ''y'']) = None"
    by (simp add: noCount_def reviewersToRequest_def stripHandles_def)
  have s: "stripHandles [''x:slack'', ''y''] = [''x'', ''y'']"
    by (simp add: stripHandles_def)
  note t = draw_count[where names = "[''x:slack'', ''y'']" and author = "''a''" and g = noCount
      and rnd = "constRandom 0" and gs = "[groupA]" and k = 0 and selected = "[]"]
  from t have skip: "selectLoop (constRandom 0) ''a'' [noCount, groupA] 0 [] =
     selectLoop (constRandom 0) ''a'' [groupA] 0 []"
    using u c by blast
  have iu: "usernames internalGroup = Some [''a'', ''b'', ''c'']"
    and ii: "internal_reviewers internalGroup = Some 2"
    and ir: "reviewers internalGroup = Some 1"
    by (simp_all add: internalGroup_def)
  have ia: "''a'' \<in> set (stripHandles [''a'', ''b'', ''c''])"
    and iz: "''z'' \<notin> set (stripHandles [''a'', ''b'', ''c''])"
    by (simp_all add: stripHandles_def)
  have two: "(2::nat) \<noteq> 0" and one: "(1::nat) \<noteq> 0" by simp_all
  note ti = draw_count[where names = "[''a'', ''b'', ''c'']" and author = "''a''"
      and g = internalGroup and rnd = "constRandom 0" and gs = "[]" and k = 0
      and selected = "[]" and n = 2]
  from ti iu ia ii two
  have ei: "selectLoop (constRandom 0) ''a'' [internalGroup] 0 [] =
      (case pickRandom (constRandom 0) 0 (stripHandles [''a'', ''b'', ''c'']) 2
              ([] @ [Some ''a'']) of
         None \<Rightarrow> None
       | Some (picks, k') \<Rightarrow> selectLoop (constRandom 0) ''a'' [] k' ([] @ picks))"
    by blast
  have pi: "pickRandom (constRandom 0) 0 (stripHandles [''a'', ''b'', ''c'']) 2
              ([] @ [Some ''a'']) = Some ([Some ''b'', Some ''c''], 2)"
    by (simp add: pickRandom_def eligible_def pickLoop.simps randomIndex_def splice1_def
          stripHandles_def js_nth_def constRandom_def)
  have ri: "selectLoop (constRandom 0) ''a'' [internalGroup] 0 []
     = Some (([Some ''b'', Some ''c''], None), 2)"
    unfolding ei pi by simp
  note te = draw_count[where names = "[''a'', ''b'', ''c'']" and author = "''z''"
      and g = internalGroup and rnd = "constRandom 0" and gs = "[]" and k = 0
      and selected = "[]" and n = 1]
  from te iu iz ir one
  have ee: "selectLoop (constRandom 0) ''z'' [internalGroup] 0 [] =
      (case pickRandom (constRandom 0) 0 (stripHandles [''a'', ''b'', ''c'']) 1
              ([] @ [Some ''z'']) of
         None \<Rightarrow> None
       | Some (picks, k') \<Rightarrow> selectLoop (constRandom 0) ''z'' [] k' ([] @ picks))"
    by blast
  have pe: "pickRandom (constRandom 0) 0 (stripHandles [''a'', ''b'', ''c'']) 1
              ([] @ [Some ''z'']) = Some ([Some ''a''], 1)"
    by (simp add: pickRandom_def eligible_def pickLoop.simps randomIndex_def splice1_def
          stripHandles_def js_nth_def constRandom_def)
  have re: "selectLoop (constRandom 0) ''z'' [internalGroup] 0 []
     = Some (([Some ''a''], None), 1)"
    unfolding ee pe by simp
  have "fst (getPRAuthor (exampleLottery [internalGroup] (examplePull ''a'' False))) = ''a''"
    and "groups (config (exampleLottery [internalGroup] (examplePull ''a'' False)))
           = [internalGroup]"
    and "draws (exampleLottery [internalGroup] (examplePull ''a'' False)) = 0"
    by (simp_all add: example_defs fetch_defs)
  with ri have "selectLoop (constRandom 0)
      (fst (getPRAuthor (exampleLottery [internalGroup] (examplePull ''a'' False))))
      (groups (config (exampleLottery [internalGroup] (examplePull ''a'' False))))
      (draws (exampleLottery [internalGroup] (examplePull ''a'' False))) []
     = Some (([Some ''b'', Some ''c''], None), 2)"
    by simp
  from selectReviewers_of_loop[OF this]
  have sr: "map_option fst
     (selectReviewers (constRandom 0) (exampleLottery [internalGroup] (examplePull ''a'' False)))
     = Some [Some ''b'', Some ''c'']"
    by simp
  from u c s skip iu ia ii two ri iz ir one re sr show ?thesis by blast
qed

theorem draw_count_counterexample:
  "''a'' \<in> set (stripHandles [''a'', ''b'']) \<and>
   usernames zeroInternal = Some [''a'', ''b''] \<and>
   internal_reviewers zeroInternal = Some 0 \<and>
   reviewersToRequest ''a'' zeroInternal (stripHandles [''a'', ''b'']) = Some 1 \<and>
   map_option fst
     (selectReviewers (constRandom 0) (exampleLottery [zeroInternal] (examplePull ''a'' False)))
     = Some [Some ''b'']"
  by (simp add: example_defs fetch_defs selectReviewers_def zeroInternal_def pick_defs
        constRandom_def)

text \<open>
  C5. Whenever \<^verbatim>\<open>selectReviewers\<close> returns, the username of the author of the pull
  request (as \<^verbatim>\<open>getPRAuthor\<close> gives it) is not in the returned list.
\<close>

theorem selectReviewers_excludes_author:
  assumes "selectReviewers rnd L = Some (selected, L')"
  shows "Some (fst (getPRAuthor L)) \<notin> set selected"
proof -
  from selectReviewers_loop[OF assms] obtain err k
    where "selectLoop rnd (fst (getPRAuthor L)) (groups (config L)) (draws L) []
             = Some ((selected, err), k)" by blast
  from selectLoop_invariant[OF this] show ?thesis by (simp add: defined_def)
qed

theorem selectReviewers_excludes_author_witness:
  "map_option fst
     (selectReviewers (constRandom 0) (exampleLottery [groupA] (examplePull ''a'' False)))
     = Some [Some ''b'', Some ''c''] \<and>
   fst (getPRAuthor (exampleLottery [groupA] (examplePull ''a'' False))) = ''a'' \<and>
   Some (fst (getPRAuthor (exampleLottery [groupA] (examplePull ''a'' False))))
     \<notin> set [Some ''b'', Some ''c'']"
proof -
  define L where "L = exampleLottery [groupA] (examplePull ''a'' False)"
  have r: "map_option fst (selectReviewers (constRandom 0) L) = Some [Some ''b'', Some ''c'']"
    by (simp add: L_def example_defs fetch_defs selectReviewers_def groupA_def pick_defs
          constRandom_def)
  then obtain L' where "selectReviewers (constRandom 0) L = Some ([Some ''b'', Some ''c''], L')"
    by (cases "selectReviewers (constRandom 0) L") auto
  from selectReviewers_excludes_author[OF this]
  have "Some (fst (getPRAuthor L)) \<notin> set [Some ''b'', Some ''c'']" .
  moreover have "fst (getPRAuthor L) = ''a''"
    by (simp add: L_def example_defs fetch_defs)
  ultimately show ?thesis using r unfolding L_def by blast
qed

text \<open>
  No username is selected twice. Whenever \<^verbatim>\<open>selectReviewers\<close> returns, the entries of
  the returned list other than \<^verbatim>\<open>undefined\<close> are pairwise distinct, and so are the
  reviewers that \<^verbatim>\<open>setReviewers\<close> puts in the request.
\<close>

theorem selectReviewers_distinct_usernames:
  assumes "selectReviewers rnd L = Some (selected, L')"
  shows "distinct (defined selected) \<and> distinct (filter truthyString selected)"
proof -
  from selectReviewers_loop[OF assms] obtain err k
    where "selectLoop rnd (fst (getPRAuthor L)) (groups (config L)) (draws L) []
             = Some ((selected, err), k)" by blast
  from selectLoop_invariant[OF this] have d: "distinct (defined selected)"
    by (simp add: defined_def)
  have "filter truthyString selected = filter truthyString (defined selected)"
    unfolding defined_def filter_filter
    by (rule filter_cong) (auto simp: truthyString_def split: option.splits)
  with d show ?thesis by (simp add: distinct_filter)
qed

theorem selectReviewers_distinct_usernames_witness:
  "map_option fst
     (selectReviewers (constRandom 0)
        (exampleLottery [groupA, soloGroup, groupB] (examplePull ''c'' False)))
     = Some [Some ''a'', Some ''b'', None, None] \<and>
   distinct (defined [Some ''a'', Some ''b'', None, None]) \<and>
   distinct (filter truthyString [Some ''a'', Some ''b'', None, None])"
proof -
  define L where "L = exampleLottery [groupA, soloGroup, groupB] (examplePull ''c'' False)"
  have r: "map_option fst (selectReviewers (constRandom 0) L)
             = Some [Some ''a'', Some ''b'', None, None]"
    by (simp add: L_def example_defs fetch_defs selectReviewers_def groupA_def soloGroup_def
          groupB_def pick_defs constRandom_def)
  then obtain L' where
    "selectReviewers (constRandom 0) L = Some ([Some ''a'', Some ''b'', None, None], L')"
    by (cases "selectReviewers (constRandom 0) L") auto
  from selectReviewers_distinct_usernames[OF this] r show ?thesis
    unfolding L_def by blast
qed

text \<open>
  C6 does not hold of the code. With two groups that have the author as their only
  member, each group gives one pick \<^verbatim>\<open>undefined\<close>, and \<^verbatim>\<open>selectReviewers\<close> returns a
  list in which \<^verbatim>\<open>undefined\<close> occurs twice.
\<close>

theorem selectReviewers_duplicates:
  "map_option fst
     (selectReviewers (constRandom 0)
        (exampleLottery [soloGroup, soloGroup] (examplePull ''a'' False)))
     = Some [None, None] \<and>
   \<not> distinct [None :: jsstring, None]"
  by (simp add: example_defs fetch_defs selectReviewers_def soloGroup_def pick_defs
        constRandom_def)

text \<open>
  C7. When a group cannot be processed because an error is thrown, and the groups
  before it were processed and gave \<^verbatim>\<open>selected\<close>, then \<^verbatim>\<open>selectReviewers\<close> returns
  exactly \<^verbatim>\<open>selected\<close>, whatever the groups after it are: it does not throw, it
  reports the error, and the later groups are not processed.
\<close>

theorem selectReviewers_partial:
  assumes "groups (config L) = before @ g # after"
    and "usernames g = None"
    and "selectLoop rnd (fst (getPRAuthor L)) before (draws L) [] = Some ((selected, None), k)"
  shows "\<exists>L'. selectReviewers rnd L = Some (selected, L') \<and>
              trace L' = trace (snd (getPRAuthor L)) @ [SetFailed TypeError]"
proof -
  have "selectLoop rnd (fst (getPRAuthor L)) (groups (config L)) (draws L) []
          = Some ((selected, Some TypeError), k)"
    unfolding assms(1) selectLoop_append assms(3)
    by (simp only: option.case prod.case selectLoop_throw[OF assms(2)])
  from selectReviewers_of_loop[OF this] show ?thesis
    by (simp add: fail_def)
qed

theorem selectReviewers_partial_witness:
  "groups (config (exampleLottery [groupA, brokenGroup, groupB] (examplePull ''a'' False)))
     = [groupA] @ brokenGroup # [groupB] \<and>
   usernames brokenGroup = None \<and>
   selectLoop (constRandom 0)
     (fst (getPRAuthor (exampleLottery [groupA, brokenGroup, groupB] (examplePull ''a'' False))))
     [groupA]
     (draws (exampleLottery [groupA, brokenGroup, groupB] (examplePull ''a'' False))) []
     = Some (([Some ''b'', Some ''c''], None), 2) \<and>
   (\<exists>L'. selectReviewers (constRandom 0)
            (exampleLottery [groupA, brokenGroup, groupB] (examplePull ''a'' False))
          = Some ([Some ''b'', Some ''c''], L') \<and>
         trace L' = [PullsList ''octo'' (Some ''repo''), SetFailed TypeError])"
proof -
  define L where "L = exampleLottery [groupA, brokenGroup, groupB] (examplePull ''a'' False)"
  have g: "groups (config L) = [groupA] @ brokenGroup # [groupB]"
    by (simp add: L_def example_defs)
  have u: "usernames brokenGroup = None" by (simp add: brokenGroup_def)
  have s: "selectLoop (constRandom 0) (fst (getPRAuthor L)) [groupA] (draws L) []
             = Some (([Some ''b'', Some ''c''], None), 2)"
    by (simp add: L_def example_defs fetch_defs groupA_def pick_defs constRandom_def)
  have t: "trace (snd (getPRAuthor L)) = [PullsList ''octo'' (Some ''repo'')]"
    by (simp add: L_def example_defs fetch_defs)
  from selectReviewers_partial[OF g u s] t g u s show ?thesis
    unfolding L_def by simp
qed

subsection \<open>The readiness check and the workflow\<close>

lemma getPR_cached: "pr L = Some p \<Longrightarrow> getPR L = (Some p, L)"
  by (simp add: getPR_def)

lemma getPR_result: "fst (getPR L) = pr (snd (getPR L))"
  by (auto simp: getPR_def fail_def Let_def split: option.splits sum.splits prod.splits)

lemma requestCalls_fail [simp]: "requestCalls (fail e L) = requestCalls L"
  by (simp add: requestCalls_def fail_def)

lemma notifications_fail [simp]: "notifications (fail e L) = notifications L"
  by (simp add: notifications_def fail_def)

lemma getPR_effects:
  "requestCalls (snd (getPR L)) = requestCalls L"
  "notifications (snd (getPR L)) = notifications L"
  by (auto simp: getPR_def fail_def Let_def requestCalls_def notifications_def
      split: option.splits sum.splits prod.splits)

lemma isReadyToReview_effects:
  "requestCalls (snd (isReadyToReview L)) = requestCalls L"
  "notifications (snd (isReadyToReview L)) = notifications L"
  by (simp_all add: isReadyToReview_def split_beta getPR_effects)

lemma getPRAuthor_effects:
  "requestCalls (snd (getPRAuthor L)) = requestCalls L"
  "notifications (snd (getPRAuthor L)) = notifications L"
  by (simp_all add: getPRAuthor_def split_beta getPR_effects)

lemma selectReviewers_effects:
  assumes "selectReviewers rnd L = Some (selected, L')"
  shows "requestCalls L' = requestCalls L" and "notifications L' = notifications L"
  using assms getPRAuthor_effects[of L]
  by (auto simp: selectReviewers_def split_beta requestCalls_def notifications_def fail_def
      split: option.splits)

lemmas workflow_defs = run_def isReadyToReview_def selectReviewers_def setReviewers_def
  alertOnSlack_def usernameToSlackMap_def getPRNumber_def truthyString_def

text \<open>
  C8. When the pull request that is fetched is a draft, \<^verbatim>\<open>isReadyToReview\<close> returns
  false and the run ends with no call that requests reviewers and no notification
  added; and when \<^verbatim>\<open>selectReviewers\<close> returns the empty list, the run ends with neither
  of them as well.
\<close>

theorem run_skips:
  "(fst (getPR L) = Some p \<and> draft p = Some True \<longrightarrow>
      fst (isReadyToReview L) = False \<and>
      (\<exists>L'. run rnd L = Some L' \<and> requestCalls L' = requestCalls L \<and>
            notifications L' = notifications L)) \<and>
   (selectReviewers rnd (snd (isReadyToReview L)) = Some ([], L2) \<longrightarrow>
      (\<exists>L'. run rnd L = Some L' \<and> requestCalls L' = requestCalls L \<and>
            notifications L' = notifications L))"
proof (rule conjI; rule impI)
  assume h: "fst (getPR L) = Some p \<and> draft p = Some True"
  then have nr: "fst (isReadyToReview L) = False"
    by (simp add: isReadyToReview_def split_beta)
  then have "run rnd L = Some (snd (isReadyToReview L))"
    by (simp add: run_def split_beta)
  with nr show "fst (isReadyToReview L) = False \<and>
      (\<exists>L'. run rnd L = Some L' \<and> requestCalls L' = requestCalls L \<and>
            notifications L' = notifications L)"
    by (simp add: isReadyToReview_effects)
next
  assume s: "selectReviewers rnd (snd (isReadyToReview L)) = Some ([], L2)"
  have "run rnd L = Some (if fst (isReadyToReview L) then L2 else snd (isReadyToReview L))"
    by (simp add: run_def split_beta s)
  moreover have "requestCalls L2 = requestCalls L" "notifications L2 = notifications L"
    using selectReviewers_effects[OF s] by (simp_all add: isReadyToReview_effects)
  ultimately show "\<exists>L'. run rnd L = Some L' \<and> requestCalls L' = requestCalls L \<and>
            notifications L' = notifications L"
    by (simp add: isReadyToReview_effects)
qed

theorem run_skips_witness:
  "fst (getPR (exampleLottery [groupA] (examplePull ''a'' True)))
     = Some (examplePull ''a'' True) \<and>
   draft (examplePull ''a'' True) = Some True \<and>
   fst (isReadyToReview (exampleLottery [groupA] (examplePull ''a'' True))) = False \<and>
   map_option requestCalls (run (constRandom 0) (exampleLottery [groupA] (examplePull ''a'' True)))
     = Some 0 \<and>
   map_option notifications (run (constRandom 0) (exampleLottery [groupA] (examplePull ''a'' True)))
     = Some 0 \<and>
   map_option fst (selectReviewers (constRandom 0)
       (snd (isReadyToReview (exampleLottery [noCount] (examplePull ''a'' False))))) = Some [] \<and>
   map_option requestCalls (run (constRandom 0) (exampleLottery [noCount] (examplePull ''a'' False)))
     = Some 0 \<and>
   map_option notifications (run (constRandom 0) (exampleLottery [noCount] (examplePull ''a'' False)))
     = Some 0"
proof -
  define D where "D = exampleLottery [groupA] (examplePull ''a'' True)"
  define E where "E = exampleLottery [noCount] (examplePull ''a'' False)"
  have d1: "fst (getPR D) = Some (examplePull ''a'' True)"
    by (simp add: D_def example_defs fetch_defs)
  have d2: "draft (examplePull ''a'' True) = Some True" by (simp add: examplePull_def)
  have d0: "requestCalls D = 0" "notifications D = 0"
    by (simp_all add: D_def example_defs requestCalls_def notifications_def)
  from run_skips[of D "examplePull ''a'' True" "constRandom 0"] d1 d2 d0
  have d3: "fst (isReadyToReview D) = False"
    and d4: "map_option requestCalls (run (constRandom 0) D) = Some 0"
    and d5: "map_option notifications (run (constRandom 0) D) = Some 0"
    by auto
  have e1: "map_option fst (selectReviewers (constRandom 0) (snd (isReadyToReview E))) = Some []"
    by (simp add: E_def example_defs fetch_defs workflow_defs noCount_def pick_defs)
  then obtain L2 where e2: "selectReviewers (constRandom 0) (snd (isReadyToReview E)) = Some ([], L2)"
    by (cases "selectReviewers (constRandom 0) (snd (isReadyToReview E))") auto
  have e0: "requestCalls E = 0" "notifications E = 0"
    by (simp_all add: E_def example_defs requestCalls_def notifications_def)
  from run_skips[of E _ "constRandom 0" L2] e2 e0
  have e3: "map_option requestCalls (run (constRandom 0) E) = Some 0"
    and e4: "map_option notifications (run (constRandom 0) E) = Some 0"
    by auto
  from d1 d2 d3 d4 d5 e1 e3 e4 show ?thesis unfolding D_def E_def by blast
qed

text \<open>A run that is not skipped, for comparison: one request and one notification.\<close>

lemma run_example:
  "map_option trace (run (constRandom 0) (exampleLottery [groupA] (examplePull ''a'' False)))
     = Some [PullsList ''octo'' (Some ''repo''),
             RequestReviewers ''octo'' (Some ''repo'') (Some 7) [Some ''b'', Some ''c''],
             Send (''<@undefined, @undefined> Has been assigned to _Fix_. ''
                   @ [CHR 0x0A, CHR 0x0A] @ ''<pr/7|View pull request>'')]"
  by (simp add: example_defs fetch_defs workflow_defs groupA_def pick_defs constRandom_def
        mapSet_def mapText_def mention_def slackUsernames_def messageText_def)

text \<open>
  C9. When a call of \<^verbatim>\<open>isReadyToReview\<close> leaves a pull request in the cache, a second
  call on the same lottery returns the same boolean and changes nothing: no second
  request for the list of pull requests is made.
\<close>

theorem isReadyToReview_idempotent:
  assumes "isReadyToReview L = (ready, L1)" and "pr L1 \<noteq> None"
  shows "isReadyToReview L1 = (ready, L1) \<and> fetches (snd (isReadyToReview L1)) = fetches L1"
proof -
  from assms(2) obtain p where p: "pr L1 = Some p" by auto
  have L1: "L1 = snd (getPR L)" and r: "ready = (case fst (getPR L) of None \<Rightarrow> False
      | Some q \<Rightarrow> draft q \<noteq> Some True)"
    using assms(1) by (simp_all add: isReadyToReview_def split_beta)
  have "fst (getPR L) = Some p" using getPR_result[of L] p L1 by simp
  with r have "ready = (draft p \<noteq> Some True)" by simp
  moreover have "isReadyToReview L1 = (draft p \<noteq> Some True, L1)"
    by (simp add: isReadyToReview_def getPR_cached[OF p])
  ultimately show ?thesis by simp
qed

theorem isReadyToReview_idempotent_witness:
  "pr (snd (isReadyToReview (exampleLottery [groupA] (examplePull ''a'' False)))) \<noteq> None \<and>
   fst (isReadyToReview (exampleLottery [groupA] (examplePull ''a'' False))) = True \<and>
   fst (isReadyToReview (snd (isReadyToReview (exampleLottery [groupA] (examplePull ''a'' False)))))
     = True \<and>
   fetches (snd (isReadyToReview (exampleLottery [groupA] (examplePull ''a'' False)))) = 1 \<and>
   fetches (snd (isReadyToReview (snd (isReadyToReview
     (exampleLottery [groupA] (examplePull ''a'' False)))))) = 1"
proof -
  define L where "L = exampleLottery [groupA] (examplePull ''a'' False)"
  have c: "pr (snd (isReadyToReview L)) \<noteq> None"
    by (simp add: L_def example_defs fetch_defs isReadyToReview_def)
  have r: "fst (isReadyToReview L) = True"
    by (simp add: L_def example_defs fetch_defs isReadyToReview_def)
  have f: "fetches (snd (isReadyToReview L)) = 1"
    by (simp add: L_def example_defs fetch_defs isReadyToReview_def fetches_def)
  have "isReadyToReview L = (True, snd (isReadyToReview L))"
    using r by (simp add: prod_eq_iff)
  from isReadyToReview_idempotent[OF this c] c r f show ?thesis
    unfolding L_def by simp
qed

subsection \<open>The table of contact handles\<close>

lemma mapUsers_append: "mapUsers m (xs @ ys) = mapUsers (mapUsers m xs) ys"
  by (induction xs arbitrary: m) (simp_all add: Let_def)

lemma mapGroups_entries:
  "mapGroups m gs = Inr m' \<Longrightarrow> m' = mapUsers m (allEntries gs)"
proof (induction gs arbitrary: m)
  case Nil
  then show ?case by (simp add: allEntries_def)
next
  case (Cons g gs)
  then show ?case
    by (cases "usernames g") (simp_all add: allEntries_def mapUsers_append)
qed

lemma lastEntry_snoc:
  "lastEntry (es @ [e]) u =
     (if hd (js_split CHR '':'' e) = u then Some e else lastEntry es u)"
  by (simp add: lastEntry_def)

lemma lastEntry_Some:
  assumes "lastEntry es u = Some e"
  shows "hd (js_split CHR '':'' e) = u" and "e \<in> set es"
proof -
  from assms obtain rest where "rev (filter (\<lambda>e. hd (js_split CHR '':'' e) = u) es) = e # rest"
    by (auto simp: lastEntry_def split: list.splits)
  then have "e \<in> set (rev (filter (\<lambda>e. hd (js_split CHR '':'' e) = u) es))" by simp
  then show "hd (js_split CHR '':'' e) = u" and "e \<in> set es" by simp_all
qed

text \<open>The last entry with a username decides what the table holds for it.\<close>

lemma mapUsers_lastEntry:
  assumes "u \<noteq> ''__proto__''"
  shows "mapUsers m es u =
           (case lastEntry es u of
              None \<Rightarrow> m u
            | Some e \<Rightarrow> Some (js_nth (js_split CHR '':'' e) 1))"
proof (induction es rule: rev_induct)
  case Nil
  show ?case by (simp add: lastEntry_def)
next
  case (snoc e es)
  show ?case
  proof (cases "hd (js_split CHR '':'' e) = u")
    case True
    then show ?thesis
      using assms by (simp add: mapUsers_append lastEntry_snoc Let_def mapSet_def)
  next
    case False
    then show ?thesis
      using snoc by (simp add: mapUsers_append lastEntry_snoc Let_def mapSet_def)
  qed
qed

text \<open>
  C10, as the code has it. When the table could be built and the last entry of the
  configuration whose username is \<open>u\<close> is \<open>u\<close> itself, without a colon and a contact
  handle (\<open>u\<close> not being \<^verbatim>\<open>__proto__\<close>), the table maps \<open>u\<close> to \<^verbatim>\<open>undefined\<close> and the
  notification names that reviewer \<^verbatim>\<open>@undefined\<close>.
\<close>

theorem mention_undefined:
  assumes "usernameToSlackMap gs = Inr m"
    and "u \<noteq> ''__proto__''"
    and "lastEntry (allEntries gs) u = Some u"
  shows "m u = Some None \<and> mention m (Some u) = ''@undefined'' \<and>
         slackUsernames m [Some u] = ''@undefined''"
proof -
  have m: "m = mapUsers Map.empty (allEntries gs)"
    by (rule mapGroups_entries[OF assms(1)[unfolded usernameToSlackMap_def]])
  have "hd (js_split CHR '':'' u) = u"
    by (rule lastEntry_Some(1)[OF assms(3)])
  then have "js_split CHR '':'' u = [u]" by (rule js_split_bare)
  then have "m u = Some None"
    unfolding m mapUsers_lastEntry[OF assms(2)] assms(3) by (simp add: js_nth_def)
  then show ?thesis
    using assms(2) by (simp add: mention_def mapText_def slackUsernames_def)
qed

theorem mention_undefined_witness:
  "usernameToSlackMap [groupA, groupB] \<noteq> Inl TypeError \<and>
   ''b'' \<noteq> ''__proto__'' \<and>
   lastEntry (allEntries [groupA, groupB]) ''b'' = Some ''b'' \<and>
   (case usernameToSlackMap [groupA, groupB] of
      Inl e \<Rightarrow> []
    | Inr m \<Rightarrow> slackUsernames m [Some ''b'']) = ''@undefined''"
proof -
  obtain m where m: "usernameToSlackMap [groupA, groupB] = Inr m"
    by (simp add: usernameToSlackMap_def groupA_def groupB_def)
  have l: "lastEntry (allEntries [groupA, groupB]) ''b'' = Some ''b''"
    by (simp add: lastEntry_def allEntries_def groupA_def groupB_def)
  have p: "''b'' \<noteq> ''__proto__''" by simp
  from mention_undefined[OF m p l] m l show ?thesis by simp
qed

theorem mention_undefined_counterexample:
  "''bob'' \<in> set (allEntries twoForms) \<and>
   map_option trace (run (constRandom 0) (exampleLottery twoForms (examplePull ''ann'' False)))
     = Some [PullsList ''octo'' (Some ''repo''),
             RequestReviewers ''octo'' (Some ''repo'') (Some 7) [Some ''bob'', Some ''cy''],
             Send (''<@U1, @U2> Has been assigned to _Fix_. ''
                   @ [CHR 0x0A, CHR 0x0A] @ ''<pr/7|View pull request>'')]"
  by (simp add: example_defs fetch_defs workflow_defs twoForms_def allEntries_def pick_defs
        constRandom_def mapSet_def mapText_def mention_def slackUsernames_def messageText_def)
end
